theory Spec2Isabelle
  imports Main "HOL-Library.Multiset"
begin

section \<open>The LRU cache of package lru (lru/lru.go)\<close>

text \<open>
  The Go code keeps a doubly linked list of elements (\<^verbatim>\<open>container/list\<close>) and a map
  from keys to pointers into that list. Both are mutable and shared, so the model has
  an explicit store: a list element is an address (a natural number), the store maps
  an allocated address to the entry its \<^verbatim>\<open>Value\<close> field points to, and the map holds
  addresses. \<^verbatim>\<open>Element.Value\<close> is set once, at \<^verbatim>\<open>PushFront\<close>, to a freshly allocated
  \<^verbatim>\<open>*entry\<close> that nothing else holds, so element and entry are one cell of the store.

  Keys are values of a HOL type with HOL equality (Go: ``any value that is
  comparable''; keys whose Go equality is not reflexive or whose dynamic type cannot be
  hashed are outside the model). Values are opaque.
\<close>

subsection \<open>Data model\<close>

type_synonym elem = nat

record ('k, 'v) entry =
  key :: 'k
  val :: 'v

text \<open>
  A Go run-time panic. The methods of \<^verbatim>\<open>Cache\<close> have no error results; the only way
  they can fail is by dereferencing a nil list or an invalid element pointer, or by
  storing into a nil map.
\<close>

datatype panic = NilPointerDereference | NilMapAssignment

text \<open>
  The struct \<^verbatim>\<open>Cache\<close> has the fields \<open>MaxEntries\<close>, \<open>OnEvicted\<close>, \<open>ll\<close> and \<open>cache\<close>; a nil
  pointer, a nil map and a nil function value are \<open>None\<close>. The record carries, next to
  them, the part of the program state that the methods read and write: the store of
  list elements \<open>heap\<close>, the next address the allocator hands out \<open>nxt\<close>, and \<open>world\<close>,
  the state of the environment on which the callback acts. The callback
  \<^verbatim>\<open>func(key Key, value interface{})\<close> is a function that transforms the environment; it
  is assumed to return and not to call back into the same cache. \<open>MaxEntries\<close> is a Go
  \<^verbatim>\<open>int\<close>; it is only compared, never computed with, so it is an unbounded integer here.
  The field \<^verbatim>\<open>value\<close> of \<^verbatim>\<open>entry\<close> is \<open>val\<close>, since \<^verbatim>\<open>value\<close> is a keyword of Isabelle.
  A method called on a nil list and a read through an address that has no cell are
  a \<open>NilPointerDereference\<close>.
\<close>

record ('k, 'v, 'w) Cache =
  MaxEntries :: int
  OnEvicted :: "('k \<Rightarrow> 'v \<Rightarrow> 'w \<Rightarrow> 'w) option"
  ll :: "elem list option"
  cache :: "('k \<rightharpoonup> elem) option"
  heap :: "elem \<rightharpoonup> ('k, 'v) entry"
  nxt :: elem
  world :: 'w

subsection \<open>The list operations used by the cache\<close>

text \<open>
  Package \<^verbatim>\<open>container/list\<close> is imported by \<^verbatim>\<open>lru.go\<close> and is not part of the repository.
  A list is the sequence of its elements, front first; the five operations that the
  cache calls follow section 4.1 of the specification.
\<close>

text \<open>Modelled from the spec: \<^verbatim>\<open>List.PushFront\<close> of \<^verbatim>\<open>container/list\<close> is not under src/.
  ``pushFront(entry): inserts a new entry at the front''. The argument is the address
  of the new element.\<close>

definition list_PushFront :: "elem \<Rightarrow> elem list \<Rightarrow> elem list" where
  "list_PushFront e xs = e # xs"

text \<open>Modelled from the spec: \<^verbatim>\<open>List.MoveToFront\<close> of \<^verbatim>\<open>container/list\<close> is not under src/.
  ``moveToFront(handle): repositions an existing node to the front without altering its
  payload; no-op if already at front''. An element that is not in the list leaves the
  list as it is.\<close>

definition list_MoveToFront :: "elem \<Rightarrow> elem list \<Rightarrow> elem list" where
  "list_MoveToFront e xs = (if e \<in> set xs then e # remove1 e xs else xs)"

text \<open>Modelled from the spec: \<^verbatim>\<open>List.Back\<close> of \<^verbatim>\<open>container/list\<close> is not under src/.
  ``back(): returns the handle of the least-recently-used node, or none if empty''.\<close>

definition list_Back :: "elem list \<Rightarrow> elem option" where
  "list_Back xs = (case xs of [] \<Rightarrow> None | _ # _ \<Rightarrow> Some (last xs))"

text \<open>Modelled from the spec: \<^verbatim>\<open>List.Remove\<close> of \<^verbatim>\<open>container/list\<close> is not under src/.
  ``remove(handle): detaches the node referenced by handle''. The cell of the element
  stays in the store, as the Go element keeps its \<^verbatim>\<open>Value\<close>.\<close>

definition list_Remove :: "elem \<Rightarrow> elem list \<Rightarrow> elem list" where
  "list_Remove e xs = remove1 e xs"

text \<open>Modelled from the spec: \<^verbatim>\<open>List.Len\<close> of \<^verbatim>\<open>container/list\<close> is not under src/.
  ``length()''.\<close>

definition list_Len :: "elem list \<Rightarrow> int" where
  "list_Len xs = int (length xs)"

subsection \<open>The methods of Cache\<close>

text \<open>\<^verbatim>\<open>New\<close>: an empty list, an empty map, no callback. The second argument is the
  environment at the time of the call.\<close>

definition New :: "int \<Rightarrow> 'w \<Rightarrow> ('k, 'v, 'w) Cache" where
  "New maxEntries w =
     \<lparr>MaxEntries = maxEntries, OnEvicted = None, ll = Some [], cache = Some Map.empty,
      heap = Map.empty, nxt = 0, world = w\<rparr>"

text \<open>\<^verbatim>\<open>removeElement\<close>: unlink the element, read its entry, delete the key from the map
  (\<^verbatim>\<open>delete\<close> on a nil map does nothing), call the callback if there is one.\<close>

definition removeElement :: "elem \<Rightarrow> ('k, 'v, 'w) Cache \<Rightarrow> panic + ('k, 'v, 'w) Cache" where
  "removeElement e c =
     (case ll c of
        None \<Rightarrow> Inl NilPointerDereference
      | Some xs \<Rightarrow>
          (case heap c e of
             None \<Rightarrow> Inl NilPointerDereference
           | Some kv \<Rightarrow>
               let c1 = c\<lparr>ll := Some (list_Remove e xs)\<rparr>;
                   c2 = c1\<lparr>cache := map_option (\<lambda>m. m(key kv := None)) (cache c1)\<rparr>
               in Inr (case OnEvicted c2 of
                         None \<Rightarrow> c2
                       | Some f \<Rightarrow> c2\<lparr>world := f (key kv) (val kv) (world c2)\<rparr>)))"

text \<open>\<^verbatim>\<open>RemoveOldest\<close>.\<close>

definition RemoveOldest :: "('k, 'v, 'w) Cache \<Rightarrow> panic + ('k, 'v, 'w) Cache" where
  "RemoveOldest c =
     (case cache c of
        None \<Rightarrow> Inr c
      | Some _ \<Rightarrow>
          (case ll c of
             None \<Rightarrow> Inl NilPointerDereference
           | Some xs \<Rightarrow>
               (case list_Back xs of
                  None \<Rightarrow> Inr c
                | Some ele \<Rightarrow> removeElement ele c)))"

text \<open>\<^verbatim>\<open>Add\<close>. The new element gets the address \<open>nxt\<close>. After the first statement the
  map is not nil; the branch for a nil map is there to read the map and is never taken.\<close>

definition Add :: "'k \<Rightarrow> 'v \<Rightarrow> ('k, 'v, 'w) Cache \<Rightarrow> panic + ('k, 'v, 'w) Cache" where
  "Add k v c0 =
     (let c = (case cache c0 of
                 None \<Rightarrow> c0\<lparr>cache := Some Map.empty, ll := Some []\<rparr>
               | Some _ \<Rightarrow> c0)
      in case cache c of
           None \<Rightarrow> Inl NilMapAssignment
         | Some m \<Rightarrow>
             (case m k of
                Some ee \<Rightarrow>
                  (case ll c of
                     None \<Rightarrow> Inl NilPointerDereference
                   | Some xs \<Rightarrow>
                       (case heap c ee of
                          None \<Rightarrow> Inl NilPointerDereference
                        | Some kv \<Rightarrow>
                            Inr (c\<lparr>ll := Some (list_MoveToFront ee xs),
                                   heap := (heap c)(ee \<mapsto> kv\<lparr>val := v\<rparr>)\<rparr>)))
              | None \<Rightarrow>
                  (case ll c of
                     None \<Rightarrow> Inl NilPointerDereference
                   | Some xs \<Rightarrow>
                       let ele = nxt c;
                           c1 = c\<lparr>heap := (heap c)(ele \<mapsto> \<lparr>key = k, val = v\<rparr>),
                                  nxt := Suc ele,
                                  ll := Some (list_PushFront ele xs)\<rparr>;
                           c2 = c1\<lparr>cache := Some (m(k \<mapsto> ele))\<rparr>
                       in if MaxEntries c2 \<noteq> 0 \<and> list_Len (list_PushFront ele xs) > MaxEntries c2
                          then RemoveOldest c2
                          else Inr c2)))"

text \<open>\<^verbatim>\<open>Get\<close> returns \<^verbatim>\<open>(value, ok)\<close>: \<open>Some v\<close> is \<^verbatim>\<open>(v, true)\<close>, \<open>None\<close> is \<^verbatim>\<open>(nil, false)\<close>.\<close>

definition Get :: "'k \<Rightarrow> ('k, 'v, 'w) Cache \<Rightarrow> panic + ('v option \<times> ('k, 'v, 'w) Cache)" where
  "Get k c =
     (case cache c of
        None \<Rightarrow> Inr (None, c)
      | Some m \<Rightarrow>
          (case m k of
             Some ele \<Rightarrow>
               (case ll c of
                  None \<Rightarrow> Inl NilPointerDereference
                | Some xs \<Rightarrow>
                    (case heap c ele of
                       None \<Rightarrow> Inl NilPointerDereference
                     | Some kv \<Rightarrow> Inr (Some (val kv), c\<lparr>ll := Some (list_MoveToFront ele xs)\<rparr>)))
           | None \<Rightarrow> Inr (None, c)))"

text \<open>\<^verbatim>\<open>Remove\<close>.\<close>

definition Remove :: "'k \<Rightarrow> ('k, 'v, 'w) Cache \<Rightarrow> panic + ('k, 'v, 'w) Cache" where
  "Remove k c =
     (case cache c of
        None \<Rightarrow> Inr c
      | Some m \<Rightarrow>
          (case m k of
             Some ele \<Rightarrow> removeElement ele c
           | None \<Rightarrow> Inr c))"

text \<open>\<^verbatim>\<open>Len\<close>.\<close>

definition Len :: "('k, 'v, 'w) Cache \<Rightarrow> panic + int" where
  "Len c =
     (case cache c of
        None \<Rightarrow> Inr 0
      | Some _ \<Rightarrow>
          (case ll c of
             None \<Rightarrow> Inl NilPointerDereference
           | Some xs \<Rightarrow> Inr (list_Len xs)))"

text \<open>
  \<^verbatim>\<open>Clear\<close>. The \<^verbatim>\<open>range\<close> loop visits the keys of the map in an order the Go run time
  chooses; \<open>ks\<close> is that order. A key of \<open>ks\<close> that the map does not hold is not
  visited. \<open>range_order m ks\<close> says that \<open>ks\<close> is an order \<^verbatim>\<open>range\<close> can take on \<open>m\<close>: each
  key of the map once. A nil map has no iterations.
\<close>

fun Clear_loop ::
  "('k \<rightharpoonup> elem) \<Rightarrow> (elem \<rightharpoonup> ('k, 'v) entry) \<Rightarrow> ('k \<Rightarrow> 'v \<Rightarrow> 'w \<Rightarrow> 'w) \<Rightarrow> 'k list \<Rightarrow> 'w \<Rightarrow> panic + 'w"
where
  "Clear_loop m h f [] w = Inr w"
| "Clear_loop m h f (k # ks) w =
     (case m k of
        None \<Rightarrow> Clear_loop m h f ks w
      | Some e \<Rightarrow>
          (case h e of
             None \<Rightarrow> Inl NilPointerDereference
           | Some kv \<Rightarrow> Clear_loop m h f ks (f (key kv) (val kv) w)))"

definition range_order :: "('k \<rightharpoonup> elem) option \<Rightarrow> 'k list \<Rightarrow> bool" where
  "range_order mo ks =
     (case mo of None \<Rightarrow> True | Some m \<Rightarrow> distinct ks \<and> set ks = dom m)"

definition Clear :: "'k list \<Rightarrow> ('k, 'v, 'w) Cache \<Rightarrow> panic + ('k, 'v, 'w) Cache" where
  "Clear ks c =
     (case OnEvicted c of
        None \<Rightarrow> Inr (c\<lparr>ll := None, cache := None\<rparr>)
      | Some f \<Rightarrow>
          (case cache c of
             None \<Rightarrow> Inr (c\<lparr>ll := None, cache := None\<rparr>)
           | Some m \<Rightarrow>
               (case Clear_loop m (heap c) f ks (world c) of
                  Inl p \<Rightarrow> Inl p
                | Inr w \<Rightarrow> Inr (c\<lparr>world := w, ll := None, cache := None\<rparr>))))"

text \<open>
  \<^verbatim>\<open>String\<close>. The loop is a \<^verbatim>\<open>range\<close> over the map again, in the order \<open>ks\<close>. \<open>fk\<close> and
  \<open>fv\<close> are what the verb \<^verbatim>\<open>%v\<close> of \<^verbatim>\<open>fmt.Sprintf\<close> prints for a key and for a value.
\<close>

fun String_loop ::
  "('k \<rightharpoonup> elem) \<Rightarrow> (elem \<rightharpoonup> ('k, 'v) entry) \<Rightarrow> ('k \<Rightarrow> string) \<Rightarrow> ('v \<Rightarrow> string) \<Rightarrow>
   'k list \<Rightarrow> string \<Rightarrow> panic + string"
where
  "String_loop m h fk fv [] s = Inr s"
| "String_loop m h fk fv (k # ks) s =
     (case m k of
        None \<Rightarrow> String_loop m h fk fv ks s
      | Some e \<Rightarrow>
          (case h e of
             None \<Rightarrow> Inl NilPointerDereference
           | Some kv \<Rightarrow>
               String_loop m h fk fv ks
                 (s @ ''key: '' @ fk k @ '', element: {key: '' @ fk (key kv) @
                  '', value: '' @ fv (val kv) @ ''}'' @ [CHR 0x0A])))"

definition String :: "('k \<Rightarrow> string) \<Rightarrow> ('v \<Rightarrow> string) \<Rightarrow> 'k list \<Rightarrow> ('k, 'v, 'w) Cache \<Rightarrow> panic + string" where
  "String fk fv ks c =
     (case cache c of
        None \<Rightarrow> Inr []
      | Some m \<Rightarrow> String_loop m (heap c) fk fv ks [])"

subsection \<open>Programs over a cache\<close>

text \<open>
  A client of the package calls the methods one after the other and may assign the two
  exported fields. \<open>run\<close> executes such a sequence, collects what the calls return and
  stops at the first panic.
\<close>

datatype ('k, 'v, 'w) op =
    OpAdd 'k 'v
  | OpGet 'k
  | OpRemove 'k
  | OpRemoveOldest
  | OpLen
  | OpClear "'k list"
  | SetMaxEntries int
  | SetOnEvicted "('k \<Rightarrow> 'v \<Rightarrow> 'w \<Rightarrow> 'w) option"

datatype 'v result = Done | Got "'v option" | Length int

fun step :: "('k, 'v, 'w) op \<Rightarrow> ('k, 'v, 'w) Cache \<Rightarrow> panic + ('v result \<times> ('k, 'v, 'w) Cache)" where
  "step (OpAdd k v) c = map_sum id (Pair Done) (Add k v c)"
| "step (OpGet k) c = map_sum id (\<lambda>(r, c'). (Got r, c')) (Get k c)"
| "step (OpRemove k) c = map_sum id (Pair Done) (Remove k c)"
| "step OpRemoveOldest c = map_sum id (Pair Done) (RemoveOldest c)"
| "step OpLen c = map_sum id (\<lambda>n. (Length n, c)) (Len c)"
| "step (OpClear ks) c = map_sum id (Pair Done) (Clear ks c)"
| "step (SetMaxEntries n) c = Inr (Done, c\<lparr>MaxEntries := n\<rparr>)"
| "step (SetOnEvicted cb) c = Inr (Done, c\<lparr>OnEvicted := cb\<rparr>)"

fun run :: "('k, 'v, 'w) op list \<Rightarrow> ('k, 'v, 'w) Cache \<Rightarrow> panic + ('v result list \<times> ('k, 'v, 'w) Cache)" where
  "run [] c = Inr ([], c)"
| "run (x # xs) c =
     (case step x c of
        Inl p \<Rightarrow> Inl p
      | Inr (r, c') \<Rightarrow>
          (case run xs c' of
             Inl p \<Rightarrow> Inl p
           | Inr (rs, c'') \<Rightarrow> Inr (r # rs, c'')))"

subsection \<open>Observations\<close>

text \<open>
  \<open>contents c\<close> is what the recency list holds, front (most recently used) first;
  \<open>lookup c k\<close> is the value the index leads to for \<open>k\<close>; \<open>recorder\<close> is the callback
  that appends its arguments to a log, so that the environment is the sequence of
  the callback's invocations.
\<close>

fun entries :: "(elem \<rightharpoonup> ('k, 'v) entry) \<Rightarrow> elem list \<Rightarrow> ('k \<times> 'v) list" where
  "entries h [] = []"
| "entries h (e # es) =
     (case h e of
        None \<Rightarrow> entries h es
      | Some kv \<Rightarrow> (key kv, val kv) # entries h es)"

definition contents :: "('k, 'v, 'w) Cache \<Rightarrow> ('k \<times> 'v) list" where
  "contents c = (case ll c of None \<Rightarrow> [] | Some xs \<Rightarrow> entries (heap c) xs)"

definition lookup :: "('k, 'v, 'w) Cache \<Rightarrow> 'k \<Rightarrow> 'v option" where
  "lookup c k =
     (case cache c of
        None \<Rightarrow> None
      | Some m \<Rightarrow> (case m k of None \<Rightarrow> None | Some e \<Rightarrow> map_option val (heap c e)))"

definition recorder :: "'k \<Rightarrow> 'v \<Rightarrow> ('k \<times> 'v) list \<Rightarrow> ('k \<times> 'v) list" where
  "recorder k v log = log @ [(k, v)]"

subsection \<open>The invariant\<close>

text \<open>
  \<open>coherent m xs h n\<close>: the list has no element twice, every element of the list is an
  allocated cell that the index reaches under the cell's own key, and every key of the
  index leads to an element of the list whose cell carries that key. \<open>consistent c\<close>:
  list and index are both nil, or both there and coherent. \<open>after_callback c k v\<close> is
  the environment once the callback of \<open>c\<close>, if it has one, has run on \<open>(k, v)\<close>.
\<close>

definition coherent :: "('k \<rightharpoonup> elem) \<Rightarrow> elem list \<Rightarrow> (elem \<rightharpoonup> ('k, 'v) entry) \<Rightarrow> elem \<Rightarrow> bool" where
  "coherent m xs h n =
     (distinct xs \<and>
      (\<forall>e \<in> set xs. e < n \<and> (\<exists>kv. h e = Some kv \<and> m (key kv) = Some e)) \<and>
      (\<forall>k e. m k = Some e \<longrightarrow> e \<in> set xs \<and> (\<exists>kv. h e = Some kv \<and> key kv = k)))"

definition consistent :: "('k, 'v, 'w) Cache \<Rightarrow> bool" where
  "consistent c =
     (case cache c of
        None \<Rightarrow> (case ll c of None \<Rightarrow> True | Some _ \<Rightarrow> False)
      | Some m \<Rightarrow>
          (case ll c of
             None \<Rightarrow> False
           | Some xs \<Rightarrow> coherent m xs (heap c) (nxt c)))"

definition after_callback :: "('k, 'v, 'w) Cache \<Rightarrow> 'k \<Rightarrow> 'v \<Rightarrow> 'w" where
  "after_callback c k v = (case OnEvicted c of None \<Rightarrow> world c | Some f \<Rightarrow> f k v (world c))"

subsection \<open>An example state\<close>

text \<open>
  A cache of capacity 2 whose callback is the recorder, after \<^verbatim>\<open>Add("a", 1)\<close> and
  \<^verbatim>\<open>Add("b", 2)\<close>.
\<close>

definition example :: "(string, int, (string \<times> int) list) Cache" where
  "example =
     \<lparr>MaxEntries = 2, OnEvicted = Some recorder, ll = Some [1, 0],
      cache = Some [''a'' \<mapsto> 0, ''b'' \<mapsto> 1],
      heap = [0 \<mapsto> \<lparr>key = ''a'', val = 1\<rparr>, 1 \<mapsto> \<lparr>key = ''b'', val = 2\<rparr>],
      nxt = 2, world = []\<rparr>"

subsection \<open>The zero value\<close>

text \<open>
  A \<^verbatim>\<open>Cache\<close> that was declared and not made by \<^verbatim>\<open>New\<close> (\<^verbatim>\<open>var c lru.Cache\<close>, or a
  composite literal that sets exported fields only) has a nil list and a nil map.
  \<open>zero_Cache w\<close> is the zero value in the environment \<open>w\<close>. It is also what \<^verbatim>\<open>Clear\<close>
  leaves of \<^verbatim>\<open>New(0)\<close>, so the states a client reaches from a zero value are among those
  it reaches from \<^verbatim>\<open>New\<close> by calling methods and assigning the exported fields.
\<close>

definition zero_Cache :: "'w \<Rightarrow> ('k, 'v, 'w) Cache" where
  "zero_Cache w =
     \<lparr>MaxEntries = 0, OnEvicted = None, ll = None, cache = None, heap = Map.empty,
      nxt = 0, world = w\<rparr>"

section \<open>Properties\<close>

subsection \<open>The invariant and the list of entries\<close>

lemma coherent_distinct: "coherent m xs h n \<Longrightarrow> distinct xs"
  by (simp add: coherent_def)

lemma coherent_fresh: "coherent m xs h n \<Longrightarrow> e \<in> set xs \<Longrightarrow> e < n"
  by (simp add: coherent_def)

lemma coherent_cell:
  "coherent m xs h n \<Longrightarrow> e \<in> set xs \<Longrightarrow> \<exists>kv. h e = Some kv \<and> m (key kv) = Some e"
  by (simp add: coherent_def)

lemma coherent_index:
  "coherent m xs h n \<Longrightarrow> m k = Some e \<Longrightarrow> e \<in> set xs \<and> (\<exists>kv. h e = Some kv \<and> key kv = k)"
  by (simp add: coherent_def)

lemma coherent_unique:
  assumes "coherent m xs h n" "x \<in> set xs" "x \<noteq> e" "h x = Some kv'" "h e = Some kv" "e \<in> set xs"
  shows "key kv' \<noteq> key kv"
  using coherent_cell[OF assms(1,2)] coherent_cell[OF assms(1,6)] assms(3,4,5) by auto

lemma coherent_empty: "coherent Map.empty [] h n"
  by (simp add: coherent_def)

lemma coherent_remove:
  assumes co: "coherent m xs h n" and mem: "e \<in> set xs" and cell: "h e = Some kv"
  shows "coherent (m(key kv := None)) (remove1 e xs) h n"
  unfolding coherent_def
proof (intro conjI ballI allI impI)
  show "distinct (remove1 e xs)" using coherent_distinct[OF co] by simp
next
  fix x assume "x \<in> set (remove1 e xs)"
  with coherent_distinct[OF co] have x: "x \<in> set xs" "x \<noteq> e" by auto
  then show "x < n" using coherent_fresh[OF co] by simp
  from coherent_cell[OF co x(1)] obtain kv' where kv': "h x = Some kv'" "m (key kv') = Some x"
    by blast
  from coherent_unique[OF co x kv'(1) cell mem] kv'
  show "\<exists>kv'. h x = Some kv' \<and> (m(key kv := None)) (key kv') = Some x" by simp
next
  fix k x assume a: "(m(key kv := None)) k = Some x"
  then have k: "k \<noteq> key kv" "m k = Some x" by (auto split: if_splits)
  from coherent_index[OF co k(2)] obtain kv' where x: "x \<in> set xs" "h x = Some kv'" "key kv' = k"
    by blast
  with k cell have "x \<noteq> e" by auto
  with x coherent_distinct[OF co] show "x \<in> set (remove1 e xs)" by simp
  from x show "\<exists>kv'. h x = Some kv' \<and> key kv' = k" by simp
qed

lemma coherent_move:
  assumes co: "coherent m xs h n" and mem: "e \<in> set xs"
  shows "coherent m (e # remove1 e xs) h n"
proof -
  have "set (e # remove1 e xs) = set xs" "distinct (e # remove1 e xs)"
    using coherent_distinct[OF co] mem by auto
  with co show ?thesis unfolding coherent_def by simp
qed

lemma coherent_set_val:
  assumes co: "coherent m xs h n" and cell: "h e = Some kv"
  shows "coherent m xs (h(e \<mapsto> kv\<lparr>val := v\<rparr>)) n"
  unfolding coherent_def
proof (intro conjI ballI allI impI)
  show "distinct xs" by (rule coherent_distinct[OF co])
next
  fix x assume x: "x \<in> set xs"
  show "x < n" by (rule coherent_fresh[OF co x])
  from coherent_cell[OF co x] cell
  show "\<exists>kv'. (h(e \<mapsto> kv\<lparr>val := v\<rparr>)) x = Some kv' \<and> m (key kv') = Some x"
    by (cases "x = e") auto
next
  fix k x assume "m k = Some x"
  from coherent_index[OF co this] cell
  show "x \<in> set xs" and "\<exists>kv'. (h(e \<mapsto> kv\<lparr>val := v\<rparr>)) x = Some kv' \<and> key kv' = k"
    by (cases "x = e"; auto)+
qed

lemma coherent_push:
  assumes co: "coherent m xs h n" and new: "m k = None"
  shows "coherent (m(k \<mapsto> n)) (n # xs) (h(n \<mapsto> \<lparr>key = k, val = v\<rparr>)) (Suc n)"
  unfolding coherent_def
proof (intro conjI ballI allI impI)
  show "distinct (n # xs)" using coherent_distinct[OF co] coherent_fresh[OF co, of n] by auto
next
  fix x assume "x \<in> set (n # xs)"
  then consider "x = n" | "x \<in> set xs" "x \<noteq> n" using coherent_fresh[OF co, of n] by auto
  then have "x < Suc n \<and> (\<exists>kv. (h(n \<mapsto> \<lparr>key = k, val = v\<rparr>)) x = Some kv \<and> (m(k \<mapsto> n)) (key kv) = Some x)"
  proof cases
    case 1
    then show ?thesis by simp
  next
    case 2
    from coherent_cell[OF co 2(1)] obtain kv where "h x = Some kv" "m (key kv) = Some x" by blast
    with 2 new coherent_fresh[OF co 2(1)] show ?thesis by auto
  qed
  then show "x < Suc n" 
    and "\<exists>kv. (h(n \<mapsto> \<lparr>key = k, val = v\<rparr>)) x = Some kv \<and> (m(k \<mapsto> n)) (key kv) = Some x"
    by simp_all
next
  fix k' x assume a: "(m(k \<mapsto> n)) k' = Some x"
  have "x \<in> set (n # xs) \<and> (\<exists>kv. (h(n \<mapsto> \<lparr>key = k, val = v\<rparr>)) x = Some kv \<and> key kv = k')"
  proof (cases "k' = k")
    case True
    with a show ?thesis by simp
  next
    case False
    with a have "m k' = Some x" by simp
    from coherent_index[OF co this] coherent_fresh[OF co, of x] show ?thesis by auto
  qed
  then show "x \<in> set (n # xs)"
    and "\<exists>kv. (h(n \<mapsto> \<lparr>key = k, val = v\<rparr>)) x = Some kv \<and> key kv = k'"
    by simp_all
qed

lemma consistent_cases:
  assumes "consistent c"
  obtains (nil) "cache c = None" "ll c = None"
  | (init) m xs where "cache c = Some m" "ll c = Some xs" "coherent m xs (heap c) (nxt c)"
  using assms unfolding consistent_def by (auto split: option.splits)

lemma entries_heap_upd_notin: "e \<notin> set xs \<Longrightarrow> entries (h(e \<mapsto> x)) xs = entries h xs"
  by (induction xs) (auto split: option.splits)

lemma entries_remove1:
  assumes cell: "h e = Some kv"
    and uniq: "\<forall>x \<in> set xs. x \<noteq> e \<longrightarrow> (\<forall>kv'. h x = Some kv' \<longrightarrow> key kv' \<noteq> key kv)"
  shows "entries h (remove1 e xs) = remove1 (key kv, val kv) (entries h xs)"
  using uniq
proof (induction xs)
  case Nil
  show ?case by simp
next
  case (Cons a xs)
  then have IH: "entries h (remove1 e xs) = remove1 (key kv, val kv) (entries h xs)"
    by simp
  show ?case
  proof (cases "a = e")
    case True
    with cell show ?thesis by simp
  next
    case False
    with Cons.prems have "\<forall>kv'. h a = Some kv' \<longrightarrow> key kv' \<noteq> key kv"
      by simp
    with False IH show ?thesis
      by (cases "h a") auto
  qed
qed

lemma length_entries:
  "(\<And>e. e \<in> set xs \<Longrightarrow> \<exists>kv. h e = Some kv) \<Longrightarrow> length (entries h xs) = length xs"
  by (induction xs) (auto split: option.splits)

lemma map_of_entries_notin:
  "(\<And>e kv. e \<in> set xs \<Longrightarrow> h e = Some kv \<Longrightarrow> key kv \<noteq> k) \<Longrightarrow> map_of (entries h xs) k = None"
  by (induction xs) (auto split: option.splits)

lemma map_of_entries_in:
  assumes cell: "h e = Some kv"
    and mem: "e \<in> set xs"
    and uniq: "\<forall>x \<in> set xs. x \<noteq> e \<longrightarrow> (\<forall>kv'. h x = Some kv' \<longrightarrow> key kv' \<noteq> key kv)"
  shows "map_of (entries h xs) (key kv) = Some (val kv)"
  using mem uniq
proof (induction xs)
  case Nil
  then show ?case by simp
next
  case (Cons a xs)
  show ?case
  proof (cases "a = e")
    case True
    with cell show ?thesis by simp
  next
    case False
    with Cons.prems have other: "\<forall>kv'. h a = Some kv' \<longrightarrow> key kv' \<noteq> key kv" and "e \<in> set xs"
      by auto
    with Cons have IH: "map_of (entries h xs) (key kv) = Some (val kv)"
      by simp
    show ?thesis
    proof (cases "h a")
      case None
      with IH show ?thesis by simp
    next
      case (Some kv')
      with other have "key kv' \<noteq> key kv" by simp
      with Some IH show ?thesis by simp
    qed
  qed
qed

lemma lookup_contents:
  assumes "consistent c"
  shows "lookup c k = map_of (contents c) k"
  using assms
proof (cases rule: consistent_cases)
  case nil
  then show ?thesis by (simp add: lookup_def contents_def)
next
  case (init m xs)
  note co = init(3)
  show ?thesis
  proof (cases "m k")
    case None
    have "map_of (entries (heap c) xs) k = None"
    proof (rule map_of_entries_notin)
      fix e kv assume "e \<in> set xs" "heap c e = Some kv"
      with coherent_cell[OF co, of e] None show "key kv \<noteq> k" by auto
    qed
    with init None show ?thesis by (simp add: lookup_def contents_def)
  next
    case (Some e)
    from coherent_index[OF co Some] obtain kv where e: "e \<in> set xs" "heap c e = Some kv" "key kv = k"
      by blast
    have "\<forall>x \<in> set xs. x \<noteq> e \<longrightarrow> (\<forall>kv'. heap c x = Some kv' \<longrightarrow> key kv' \<noteq> key kv)"
      using coherent_unique[OF co _ _ _ e(2,1)] by blast
    from map_of_entries_in[OF e(2,1) this] init Some e show ?thesis
      by (simp add: lookup_def contents_def)
  qed
qed

lemma Len_contents:
  assumes "consistent c"
  shows "Len c = Inr (int (length (contents c)))"
  using assms
proof (cases rule: consistent_cases)
  case nil
  then show ?thesis by (simp add: Len_def contents_def)
next
  case (init m xs)
  then have "length (entries (heap c) xs) = length xs"
    using coherent_cell[OF init(3)] by (intro length_entries) blast
  with init show ?thesis by (simp add: Len_def contents_def list_Len_def)
qed


lemma entries_cells_butlast:
  "(\<And>e. e \<in> set ys \<Longrightarrow> \<exists>kv. h e = Some kv) \<Longrightarrow> entries h (butlast ys) = butlast (entries h ys)"
proof (induction ys)
  case Nil
  show ?case by simp
next
  case (Cons a ys)
  then obtain kv where a: "h a = Some kv" by auto
  show ?case
  proof (cases ys)
    case Nil
    with a show ?thesis by simp
  next
    case (Cons b zs)
    with Cons.prems obtain kvb where "h b = Some kvb" by auto
    with Cons have "entries h ys \<noteq> []" by simp
    with Cons.IH Cons.prems a Cons show ?thesis by simp
  qed
qed

lemma entries_cells_last:
  "ys \<noteq> [] \<Longrightarrow> (\<And>e. e \<in> set ys \<Longrightarrow> \<exists>kv. h e = Some kv) \<Longrightarrow> h (last ys) = Some kv \<Longrightarrow>
   last (entries h ys) = (key kv, val kv)"
proof (induction ys)
  case Nil
  then show ?case by simp
next
  case (Cons a ys)
  then obtain kva where a: "h a = Some kva" by auto
  show ?case
  proof (cases ys)
    case Nil
    with a Cons.prems show ?thesis by simp
  next
    case (Cons b zs)
    with Cons.prems obtain kvb where "h b = Some kvb" by auto
    with Cons have "entries h ys \<noteq> []" by simp
    with Cons.IH Cons.prems a Cons show ?thesis by simp
  qed
qed

lemma remove1_last_distinct: "distinct ys \<Longrightarrow> ys \<noteq> [] \<Longrightarrow> remove1 (last ys) ys = butlast ys"
  by (induction ys) auto

subsection \<open>What each method does on a consistent cache\<close>

lemma removeElement_eq:
  assumes "ll c = Some xs" "heap c e = Some kv" "cache c = Some m"
  shows "removeElement e c =
           Inr (c\<lparr>ll := Some (remove1 e xs), cache := Some (m(key kv := None)),
                  world := after_callback c (key kv) (val kv)\<rparr>)"
  using assms
  by (cases "OnEvicted c") (simp_all add: removeElement_def list_Remove_def after_callback_def)

lemma Add_lazy_init:
  "cache c = None \<Longrightarrow> Add k v c = Add k v (c\<lparr>cache := Some Map.empty, ll := Some []\<rparr>)"
  by (simp add: Add_def)

lemma Add_hit_eq:
  assumes "cache c = Some m" "ll c = Some xs" "m k = Some e" "heap c e = Some kv" "e \<in> set xs"
  shows "Add k v c = Inr (c\<lparr>ll := Some (e # remove1 e xs), heap := (heap c)(e \<mapsto> kv\<lparr>val := v\<rparr>)\<rparr>)"
  using assms by (simp add: Add_def list_MoveToFront_def)

lemma Add_miss_eq:
  assumes "cache c = Some m" "ll c = Some xs" "m k = None"
  shows "Add k v c =
     (let c2 = c\<lparr>heap := (heap c)(nxt c \<mapsto> \<lparr>key = k, val = v\<rparr>), nxt := Suc (nxt c),
                 ll := Some (nxt c # xs), cache := Some (m(k \<mapsto> nxt c))\<rparr>
      in if MaxEntries c \<noteq> 0 \<and> int (length xs) + 1 > MaxEntries c
         then RemoveOldest c2 else Inr c2)"
  using assms
  by (simp add: Add_def list_PushFront_def list_Len_def Let_def)

lemma Get_hit_eq:
  assumes "cache c = Some m" "ll c = Some xs" "m k = Some e" "heap c e = Some kv" "e \<in> set xs"
  shows "Get k c = Inr (Some (val kv), c\<lparr>ll := Some (e # remove1 e xs)\<rparr>)"
  using assms by (simp add: Get_def list_MoveToFront_def)

lemma Get_miss_eq: "lookup c k = None \<Longrightarrow> consistent c \<Longrightarrow> Get k c = Inr (None, c)"
  by (erule consistent_cases)
     (auto simp: Get_def lookup_def split: option.splits dest: coherent_index)

lemma Remove_miss_eq: "lookup c k = None \<Longrightarrow> consistent c \<Longrightarrow> Remove k c = Inr c"
  by (erule consistent_cases)
     (auto simp: Remove_def lookup_def split: option.splits dest: coherent_index)

lemma lookup_hit:
  assumes "cache c = Some m" "coherent m xs (heap c) (nxt c)" "lookup c k = Some u"
  obtains e kv where "m k = Some e" "e \<in> set xs" "heap c e = Some kv" "key kv = k" "val kv = u"
  using assms by (auto simp: lookup_def split: option.splits dest: coherent_index)

lemma consistent_init:
  "cache c = Some m \<Longrightarrow> ll c = Some xs \<Longrightarrow> coherent m xs (heap c) (nxt c) \<Longrightarrow> consistent c"
  by (simp add: consistent_def)

lemma removeElement_spec:
  assumes c: "cache c = Some m" "ll c = Some xs" and co: "coherent m xs (heap c) (nxt c)"
    and e: "e \<in> set xs" "heap c e = Some kv"
  shows "\<exists>c'. removeElement e c = Inr c' \<and> consistent c' \<and>
           ll c' = Some (remove1 e xs) \<and> heap c' = heap c \<and>
           contents c' = remove1 (key kv, val kv) (contents c) \<and>
           lookup c' = (lookup c)(key kv := None) \<and>
           world c' = after_callback c (key kv) (val kv) \<and>
           MaxEntries c' = MaxEntries c \<and> OnEvicted c' = OnEvicted c"
proof -
  let ?c' = "c\<lparr>ll := Some (remove1 e xs), cache := Some (m(key kv := None)),
                world := after_callback c (key kv) (val kv)\<rparr>"
  have eq: "removeElement e c = Inr ?c'"
    by (rule removeElement_eq[OF c(2) e(2) c(1)])
  have "consistent ?c'"
    using coherent_remove[OF co e] by (simp add: consistent_def)
  moreover have "contents ?c' = remove1 (key kv, val kv) (contents c)"
  proof -
    have "\<forall>x \<in> set xs. x \<noteq> e \<longrightarrow> (\<forall>kv'. heap c x = Some kv' \<longrightarrow> key kv' \<noteq> key kv)"
      using coherent_unique[OF co _ _ _ e(2,1)] by blast
    from entries_remove1[where h = "heap c" and e = e and kv = kv and xs = xs, OF e(2) this] c
    show ?thesis by (simp add: contents_def)
  qed
  moreover have "lookup ?c' = (lookup c)(key kv := None)"
    using c by (auto simp: lookup_def fun_eq_iff split: option.splits)
  ultimately show ?thesis using eq by simp
qed

lemma RemoveOldest_spec:
  assumes "consistent c"
  shows "\<exists>c'. RemoveOldest c = Inr c' \<and> consistent c' \<and>
           contents c' = butlast (contents c) \<and>
           lookup c' = (case contents c of [] \<Rightarrow> lookup c | _ # _ \<Rightarrow> (lookup c)(fst (last (contents c)) := None)) \<and>
           world c' = (case contents c of [] \<Rightarrow> world c
                       | _ # _ \<Rightarrow> after_callback c (fst (last (contents c))) (snd (last (contents c)))) \<and>
           MaxEntries c' = MaxEntries c \<and> OnEvicted c' = OnEvicted c"
  using assms
proof (cases rule: consistent_cases)
  case nil
  with assms show ?thesis by (simp add: RemoveOldest_def contents_def)
next
  case (init m xs)
  note co = init(3)
  show ?thesis
  proof (cases xs)
    case Nil
    with init assms show ?thesis by (simp add: RemoveOldest_def contents_def list_Back_def)
  next
    case (Cons x ys)
    then have ne: "xs \<noteq> []" and mem: "last xs \<in> set xs" by auto
    from coherent_cell[OF co mem] obtain kv where kv: "heap c (last xs) = Some kv" by blast
    have cells: "\<And>e. e \<in> set xs \<Longrightarrow> \<exists>kv. heap c e = Some kv"
      using coherent_cell[OF co] by blast
    from removeElement_spec[OF init(1,2) co mem kv] obtain c' where c':
      "removeElement (last xs) c = Inr c'" "consistent c'" "ll c' = Some (remove1 (last xs) xs)"
      "heap c' = heap c" "lookup c' = (lookup c)(key kv := None)"
      "world c' = after_callback c (key kv) (val kv)"
      "MaxEntries c' = MaxEntries c" "OnEvicted c' = OnEvicted c"
      by blast
    have l: "last (contents c) = (key kv, val kv)"
      using entries_cells_last[where h = "heap c", OF ne cells kv] init by (simp add: contents_def)
    have "length (contents c) = length xs"
      using length_entries[where h = "heap c", OF cells] init by (simp add: contents_def)
    with ne obtain p ps where ps: "contents c = p # ps" by (cases "contents c") auto
    have "contents c' = butlast (contents c)"
      using c'(3,4) remove1_last_distinct[OF coherent_distinct[OF co] ne]
        entries_cells_butlast[where h = "heap c", OF cells] init
      by (simp add: contents_def)
    moreover have "RemoveOldest c = Inr c'"
      using init Cons c'(1) by (simp add: RemoveOldest_def list_Back_def)
    ultimately show ?thesis using c' l ps by auto
  qed
qed


lemma move_contents:
  assumes co: "coherent m xs h n" and e: "e \<in> set xs" "h e = Some kv"
  shows "entries h (e # remove1 e xs) = (key kv, val kv) # remove1 (key kv, val kv) (entries h xs)"
proof -
  have "\<forall>x \<in> set xs. x \<noteq> e \<longrightarrow> (\<forall>kv'. h x = Some kv' \<longrightarrow> key kv' \<noteq> key kv)"
    using coherent_unique[OF co _ _ _ e(2,1)] by blast
  from entries_remove1[where h = h and e = e and kv = kv and xs = xs, OF e(2) this] e(2)
  show ?thesis by simp
qed

lemma Add_spec_init:
  assumes c: "cache c = Some m" "ll c = Some xs" and co: "coherent m xs (heap c) (nxt c)"
  shows "\<exists>c'. Add k v c = Inr c' \<and> consistent c' \<and>
           MaxEntries c' = MaxEntries c \<and> OnEvicted c' = OnEvicted c \<and>
           (case lookup c k of
              Some u \<Rightarrow>
                contents c' = (k, v) # remove1 (k, u) (contents c) \<and> world c' = world c \<and>
                cache c' = cache c
            | None \<Rightarrow>
                if MaxEntries c \<noteq> 0 \<and> int (length (contents c)) + 1 > MaxEntries c
                then contents c' = butlast ((k, v) # contents c) \<and>
                     world c' = after_callback c (fst (last ((k, v) # contents c)))
                                  (snd (last ((k, v) # contents c)))
                else contents c' = (k, v) # contents c \<and> world c' = world c)"
proof (cases "m k")
  case (Some e)
  from coherent_index[OF co Some] obtain kv where e: "e \<in> set xs" "heap c e = Some kv" "key kv = k"
    by blast
  let ?h = "(heap c)(e \<mapsto> kv\<lparr>val := v\<rparr>)"
  let ?c' = "c\<lparr>ll := Some (e # remove1 e xs), heap := ?h\<rparr>"
  have eq: "Add k v c = Inr ?c'"
    by (rule Add_hit_eq[OF c Some e(2,1)])
  have look: "lookup c k = Some (val kv)"
    using c Some e by (simp add: lookup_def)
  have co': "coherent m (e # remove1 e xs) ?h (nxt c)"
    by (rule coherent_set_val[OF coherent_move[OF co e(1)] e(2)])
  then have "consistent ?c'" using c by (simp add: consistent_def)
  moreover have "contents ?c' = (k, v) # remove1 (k, val kv) (contents c)"
  proof -
    have "e \<notin> set (remove1 e xs)" using coherent_distinct[OF co] by simp
    then have "entries ?h (remove1 e xs) = entries (heap c) (remove1 e xs)"
      by (rule entries_heap_upd_notin)
    with move_contents[OF co e(1,2)] e(2,3) c show ?thesis
      by (simp add: contents_def)
  qed
  ultimately show ?thesis using eq look by simp
next
  case None
  have look: "lookup c k = None" using c None by (simp add: lookup_def)
  let ?h = "(heap c)(nxt c \<mapsto> \<lparr>key = k, val = v\<rparr>)"
  let ?c2 = "c\<lparr>heap := ?h, nxt := Suc (nxt c), ll := Some (nxt c # xs),
               cache := Some (m(k \<mapsto> nxt c))\<rparr>"
  have eq: "Add k v c =
      (if MaxEntries c \<noteq> 0 \<and> int (length xs) + 1 > MaxEntries c then RemoveOldest ?c2 else Inr ?c2)"
    using Add_miss_eq[OF c None, of v] by (simp add: Let_def)
  have co2: "coherent (m(k \<mapsto> nxt c)) (nxt c # xs) ?h (Suc (nxt c))"
    by (rule coherent_push[OF co None])
  then have cons2: "consistent ?c2" by (simp add: consistent_def)
  have "nxt c \<notin> set xs" using coherent_fresh[OF co, of "nxt c"] by auto
  then have "entries ?h xs = entries (heap c) xs" by (rule entries_heap_upd_notin)
  then have cont2: "contents ?c2 = (k, v) # contents c" using c by (simp add: contents_def)
  have len: "length (contents c) = length xs"
    using length_entries[where h = "heap c" and xs = xs] coherent_cell[OF co] c
    by (simp add: contents_def) blast
  show ?thesis
  proof (cases "MaxEntries c \<noteq> 0 \<and> int (length xs) + 1 > MaxEntries c")
    case True
    from RemoveOldest_spec[OF cons2] obtain c' where c':
      "RemoveOldest ?c2 = Inr c'" "consistent c'" "contents c' = butlast (contents ?c2)"
      "world c' = (case contents ?c2 of [] \<Rightarrow> world ?c2
                   | _ # _ \<Rightarrow> after_callback ?c2 (fst (last (contents ?c2))) (snd (last (contents ?c2))))"
      "MaxEntries c' = MaxEntries ?c2" "OnEvicted c' = OnEvicted ?c2"
      by blast
    have "after_callback ?c2 = after_callback c"
      by (simp add: after_callback_def fun_eq_iff split: option.splits)
    with c' cont2 True eq look len show ?thesis by simp
  next
    case False
    with eq cons2 cont2 look len show ?thesis by auto
  qed
qed

lemma Add_spec:
  assumes "consistent c"
  shows "\<exists>c'. Add k v c = Inr c' \<and> consistent c' \<and>
           MaxEntries c' = MaxEntries c \<and> OnEvicted c' = OnEvicted c \<and>
           (case lookup c k of
              Some u \<Rightarrow>
                contents c' = (k, v) # remove1 (k, u) (contents c) \<and> world c' = world c \<and>
                cache c' = cache c
            | None \<Rightarrow>
                if MaxEntries c \<noteq> 0 \<and> int (length (contents c)) + 1 > MaxEntries c
                then contents c' = butlast ((k, v) # contents c) \<and>
                     world c' = after_callback c (fst (last ((k, v) # contents c)))
                                  (snd (last ((k, v) # contents c)))
                else contents c' = (k, v) # contents c \<and> world c' = world c)"
  using assms
proof (cases rule: consistent_cases)
  case (init m xs)
  then show ?thesis by (rule Add_spec_init)
next
  case nil
  let ?c = "c\<lparr>cache := Some Map.empty, ll := Some []\<rparr>"
  have "coherent Map.empty [] (heap ?c) (nxt ?c)" by (rule coherent_empty)
  from Add_spec_init[of ?c, OF _ _ this, of k v] obtain c' where c':
    "Add k v ?c = Inr c'" "consistent c'" "MaxEntries c' = MaxEntries ?c"
    "OnEvicted c' = OnEvicted ?c"
    "case lookup ?c k of
       Some u \<Rightarrow>
         contents c' = (k, v) # remove1 (k, u) (contents ?c) \<and> world c' = world ?c \<and>
         cache c' = cache ?c
     | None \<Rightarrow>
         if MaxEntries ?c \<noteq> 0 \<and> int (length (contents ?c)) + 1 > MaxEntries ?c
         then contents c' = butlast ((k, v) # contents ?c) \<and>
              world c' = after_callback ?c (fst (last ((k, v) # contents ?c)))
                           (snd (last ((k, v) # contents ?c)))
         else contents c' = (k, v) # contents ?c \<and> world c' = world ?c"
    by auto
  have same: "lookup ?c k = None" "lookup c k = None" "contents ?c = []" "contents c = []"
    "after_callback ?c = after_callback c"
    using nil by (simp_all add: lookup_def contents_def after_callback_def fun_eq_iff split: option.splits)
  have "Add k v c = Inr c'" using Add_lazy_init[OF nil(1), of k v] c'(1) by simp
  with c'(2-5) show ?thesis unfolding same by (intro exI[of _ c']) simp
qed

lemma Get_spec:
  assumes "consistent c"
  shows "\<exists>c'. Get k c = Inr (lookup c k, c') \<and> consistent c' \<and>
           (case lookup c k of
              None \<Rightarrow> c' = c
            | Some u \<Rightarrow> contents c' = (k, u) # remove1 (k, u) (contents c) \<and> c' = c\<lparr>ll := ll c'\<rparr>)"
proof (cases "lookup c k")
  case None
  with Get_miss_eq[OF None assms] assms show ?thesis by simp
next
  case (Some u)
  from assms show ?thesis
  proof (cases rule: consistent_cases)
    case nil
    with Some show ?thesis by (simp add: lookup_def)
  next
    case (init m xs)
    from lookup_hit[OF init(1,3) Some] obtain e kv where
      e: "m k = Some e" "e \<in> set xs" "heap c e = Some kv" "key kv = k" "val kv = u"
      by blast
    let ?c' = "c\<lparr>ll := Some (e # remove1 e xs)\<rparr>"
    have "Get k c = Inr (Some u, ?c')"
      using Get_hit_eq[OF init(1,2) e(1,3,2)] e(5) by simp
    moreover have "consistent ?c'"
      using coherent_move[OF init(3) e(2)] init by (simp add: consistent_def)
    moreover have "contents ?c' = (k, u) # remove1 (k, u) (contents c)"
      using move_contents[OF init(3) e(2,3)] e(4,5) init by (simp add: contents_def)
    ultimately show ?thesis using Some by simp
  qed
qed

lemma Remove_spec:
  assumes "consistent c"
  shows "\<exists>c'. Remove k c = Inr c' \<and> consistent c' \<and>
           MaxEntries c' = MaxEntries c \<and> OnEvicted c' = OnEvicted c \<and>
           (case lookup c k of
              None \<Rightarrow> c' = c
            | Some u \<Rightarrow>
                contents c' = remove1 (k, u) (contents c) \<and>
                lookup c' = (lookup c)(k := None) \<and>
                world c' = after_callback c k u)"
proof (cases "lookup c k")
  case None
  with Remove_miss_eq[OF None assms] assms show ?thesis by simp
next
  case (Some u)
  from assms show ?thesis
  proof (cases rule: consistent_cases)
    case nil
    with Some show ?thesis by (simp add: lookup_def)
  next
    case (init m xs)
    from lookup_hit[OF init(1,3) Some] obtain e kv where
      e: "m k = Some e" "e \<in> set xs" "heap c e = Some kv" "key kv = k" "val kv = u"
      by blast
    have "Remove k c = removeElement e c" using init e by (simp add: Remove_def)
    with removeElement_spec[OF init e(2,3)] e(4,5) Some show ?thesis by auto
  qed
qed


lemma entries_mem:
  "(k, u) \<in> set (entries h xs) \<Longrightarrow> \<exists>e \<in> set xs. \<exists>kv. h e = Some kv \<and> key kv = k \<and> val kv = u"
  by (induction xs) (auto split: option.splits)

lemma entries_distinct_keys:
  assumes "distinct xs"
    and "\<forall>x \<in> set xs. \<forall>y \<in> set xs. \<forall>kx ky. h x = Some kx \<longrightarrow> h y = Some ky \<longrightarrow> key kx = key ky \<longrightarrow> x = y"
  shows "distinct (map fst (entries h xs))"
  using assms
proof (induction xs)
  case Nil
  show ?case by simp
next
  case (Cons a xs)
  then have IH: "distinct (map fst (entries h xs))" by simp
  show ?case
  proof (cases "h a")
    case None
    with IH show ?thesis by simp
  next
    case (Some kv)
    have "key kv \<notin> fst ` set (entries h xs)"
    proof
      assume "key kv \<in> fst ` set (entries h xs)"
      then obtain u where "(key kv, u) \<in> set (entries h xs)" by auto
      from entries_mem[OF this] obtain e kv' where
        e: "e \<in> set xs" "h e = Some kv'" "key kv' = key kv" by blast
      with Cons.prems(2) Some have "e = a" by auto
      with e(1) Cons.prems(1) show False by simp
    qed
    with IH Some show ?thesis by simp
  qed
qed

lemma distinct_keys:
  assumes "consistent c"
  shows "distinct (map fst (contents c))"
  using assms
proof (cases rule: consistent_cases)
  case nil
  then show ?thesis by (simp add: contents_def)
next
  case (init m xs)
  note co = init(3)
  have "\<forall>x \<in> set xs. \<forall>y \<in> set xs. \<forall>kx ky.
          heap c x = Some kx \<longrightarrow> heap c y = Some ky \<longrightarrow> key kx = key ky \<longrightarrow> x = y"
    using coherent_unique[OF co] by blast
  from entries_distinct_keys[OF coherent_distinct[OF co] this] init
  show ?thesis by (simp add: contents_def)
qed

lemma Clear_loop_total:
  assumes co: "coherent m xs h n"
  shows "\<exists>w'. Clear_loop m h f ks w = Inr w'"
proof (induction ks arbitrary: w)
  case Nil
  show ?case by simp
next
  case (Cons k ks)
  show ?case
  proof (cases "m k")
    case None
    with Cons show ?thesis by simp
  next
    case (Some e)
    from coherent_index[OF co Some] obtain kv where "h e = Some kv" by blast
    with Some Cons show ?thesis by simp
  qed
qed

lemma Clear_loop_fold:
  assumes co: "coherent m xs h n"
  shows "set ks \<subseteq> dom m \<Longrightarrow>
     Clear_loop m h f ks w =
       Inr (fold (\<lambda>(k, v). f k v) (map (\<lambda>k. (k, the (map_of (entries h xs) k))) ks) w)"
proof (induction ks arbitrary: w)
  case Nil
  show ?case by simp
next
  case (Cons k ks)
  then obtain e where e: "m k = Some e" by auto
  from coherent_index[OF co e] obtain kv where kv: "e \<in> set xs" "h e = Some kv" "key kv = k"
    by blast
  have "\<forall>x \<in> set xs. x \<noteq> e \<longrightarrow> (\<forall>kv'. h x = Some kv' \<longrightarrow> key kv' \<noteq> key kv)"
    using coherent_unique[OF co _ _ _ kv(2,1)] by blast
  from map_of_entries_in[OF kv(2,1) this] kv(3)
  have "map_of (entries h xs) k = Some (val kv)" by simp
  with Cons e kv show ?case by simp
qed

lemma Clear_total:
  assumes "consistent c"
  shows "\<exists>c'. Clear ks c = Inr c' \<and> consistent c' \<and> cache c' = None \<and> ll c' = None \<and>
              MaxEntries c' = MaxEntries c \<and> OnEvicted c' = OnEvicted c"
proof (cases "OnEvicted c")
  case None
  then show ?thesis by (simp add: Clear_def consistent_def)
next
  case (Some f)
  from assms show ?thesis
  proof (cases rule: consistent_cases)
    case nil
    with Some show ?thesis by (simp add: Clear_def consistent_def)
  next
    case (init m xs)
    from Clear_loop_total[OF init(3), where f = f and ks = ks and w = "world c"] obtain w' where
      "Clear_loop m (heap c) f ks (world c) = Inr w'" by blast
    with Some init show ?thesis by (simp add: Clear_def consistent_def)
  qed
qed

lemma Clear_spec:
  assumes "consistent c" and ro: "range_order (cache c) ks"
  shows "\<exists>c' kvs. Clear ks c = Inr c' \<and> mset kvs = mset (contents c) \<and>
           world c' = (case OnEvicted c of None \<Rightarrow> world c
                       | Some f \<Rightarrow> fold (\<lambda>(k, v). f k v) kvs (world c)) \<and>
           c' = c\<lparr>world := world c', ll := None, cache := None\<rparr>"
  using assms(1)
proof (cases rule: consistent_cases)
  case nil
  then have "contents c = []" by (simp add: contents_def)
  with nil show ?thesis
    by (intro exI[of _ "c\<lparr>ll := None, cache := None\<rparr>"] exI[of _ "[]"])
       (simp add: Clear_def split: option.splits)
next
  case (init m xs)
  note co = init(3)
  from ro init have ks: "distinct ks" "set ks = dom m" by (simp_all add: range_order_def)
  let ?kvs = "map (\<lambda>k. (k, the (map_of (contents c) k))) ks"
  have dk: "distinct (map fst (contents c))" by (rule distinct_keys[OF assms(1)])
  have d1: "distinct ?kvs" using ks(1) by (simp add: distinct_map inj_on_def)
  have d2: "distinct (contents c)" using dk by (simp add: distinct_map)
  have "set ?kvs = set (contents c)"
  proof (intro set_eqI iffI)
    fix p assume "p \<in> set ?kvs"
    then obtain k where k: "k \<in> set ks" "p = (k, the (map_of (contents c) k))" by auto
    with ks obtain e where "m k = Some e" by auto
    from coherent_index[OF co this] obtain kv where "heap c e = Some kv" by blast
    with \<open>m k = Some e\<close> init have "lookup c k = Some (val kv)" by (simp add: lookup_def)
    then have "map_of (contents c) k = Some (val kv)" using lookup_contents[OF assms(1)] by simp
    with k show "p \<in> set (contents c)" by (auto dest: map_of_SomeD)
  next
    fix p assume p: "p \<in> set (contents c)"
    obtain k u where ku: "p = (k, u)" by (cases p)
    with p dk have mo: "map_of (contents c) k = Some u" by simp
    then have "lookup c k = Some u" using lookup_contents[OF assms(1)] by simp
    with init have "k \<in> dom m" by (auto simp: lookup_def split: option.splits)
    with ks mo ku show "p \<in> set ?kvs" by auto
  qed
  with set_eq_iff_mset_eq_distinct[OF d1 d2] have ms: "mset ?kvs = mset (contents c)"
    by blast
  show ?thesis
  proof (cases "OnEvicted c")
    case None
    with ms show ?thesis
      by (intro exI[of _ "c\<lparr>ll := None, cache := None\<rparr>"] exI[of _ ?kvs]) (simp add: Clear_def)
  next
    case (Some f)
    have "Clear_loop m (heap c) f ks (world c) = Inr (fold (\<lambda>(k, v). f k v) ?kvs (world c))"
      using Clear_loop_fold[OF co, of ks f "world c"] ks init by (simp add: contents_def)
    with Some init ms show ?thesis
      by (intro exI[of _ "c\<lparr>world := fold (\<lambda>(k, v). f k v) ?kvs (world c), ll := None, cache := None\<rparr>"]
            exI[of _ ?kvs]) (simp add: Clear_def)
  qed
qed

lemma consistent_New: "consistent (New n w)"
  by (simp add: New_def consistent_def coherent_def)

lemma step_consistent:
  assumes "consistent c"
  shows "\<exists>r c'. step x c = Inr (r, c') \<and> consistent c'"
proof (cases x)
  case (OpAdd k v)
  with Add_spec[OF assms, of k v] show ?thesis by auto
next
  case (OpGet k)
  with Get_spec[OF assms, of k] show ?thesis by auto
next
  case (OpRemove k)
  with Remove_spec[OF assms, of k] show ?thesis by auto
next
  case OpRemoveOldest
  with RemoveOldest_spec[OF assms] show ?thesis by auto
next
  case OpLen
  with Len_contents[OF assms] assms show ?thesis by auto
next
  case (OpClear ks)
  with Clear_total[OF assms, of ks] show ?thesis by auto
next
  case (SetMaxEntries n)
  with assms show ?thesis by (simp add: consistent_def split: option.splits)
next
  case (SetOnEvicted cb)
  with assms show ?thesis by (simp add: consistent_def split: option.splits)
qed

lemma run_consistent:
  "consistent c \<Longrightarrow> \<exists>rs c'. run xs c = Inr (rs, c') \<and> consistent c'"
proof (induction xs arbitrary: c)
  case Nil
  then show ?case by simp
next
  case (Cons x xs)
  from step_consistent[OF Cons.prems, of x] obtain r c1 where
    s: "step x c = Inr (r, c1)" "consistent c1" by blast
  from Cons.IH[OF s(2)] obtain rs c2 where "run xs c1 = Inr (rs, c2)" "consistent c2" by blast
  with s show ?case by simp
qed

lemma reachable_consistent:
  assumes "run ops (New n w0) = Inr (rs, c)"
  shows "consistent c"
  using run_consistent[OF consistent_New, of ops n w0] assms by auto

subsection \<open>The capacity bound\<close>

lemma Add_bounded:
  assumes "consistent c" "0 < MaxEntries c" "int (length (contents c)) \<le> MaxEntries c"
  shows "\<exists>c'. Add k v c = Inr c' \<and> consistent c' \<and> MaxEntries c' = MaxEntries c \<and>
              int (length (contents c')) \<le> MaxEntries c"
proof -
  from Add_spec[OF assms(1), of k v] obtain c' where c':
    "Add k v c = Inr c'" "consistent c'" "MaxEntries c' = MaxEntries c"
    "case lookup c k of
       Some u \<Rightarrow>
         contents c' = (k, v) # remove1 (k, u) (contents c) \<and> world c' = world c \<and>
         cache c' = cache c
     | None \<Rightarrow>
         if MaxEntries c \<noteq> 0 \<and> int (length (contents c)) + 1 > MaxEntries c
         then contents c' = butlast ((k, v) # contents c) \<and>
              world c' = after_callback c (fst (last ((k, v) # contents c)))
                           (snd (last ((k, v) # contents c)))
         else contents c' = (k, v) # contents c \<and> world c' = world c"
    by blast
  have "int (length (contents c')) \<le> MaxEntries c"
  proof (cases "lookup c k")
    case None
    with c'(4) assms(2,3) show ?thesis by (auto split: if_splits)
  next
    case (Some u)
    then have "map_of (contents c) k = Some u" using lookup_contents[OF assms(1)] by simp
    then have "(k, u) \<in> set (contents c)" by (rule map_of_SomeD)
    then have "length (remove1 (k, u) (contents c)) = length (contents c) - 1"
      and "contents c \<noteq> []"
      by (auto simp: length_remove1)
    with Some c'(4) assms(3) show ?thesis by (cases "contents c") auto
  qed
  with c' show ?thesis by blast
qed

lemma Adds_bounded:
  assumes "consistent c" "0 < MaxEntries c" "int (length (contents c)) \<le> MaxEntries c"
  shows "\<exists>rs c'. run (map (\<lambda>(k, v). OpAdd k v) kvs) c = Inr (rs, c') \<and> consistent c' \<and>
            MaxEntries c' = MaxEntries c \<and> int (length (contents c')) \<le> MaxEntries c"
  using assms
proof (induction kvs arbitrary: c)
  case Nil
  then show ?case by simp
next
  case (Cons kv kvs)
  obtain k v where kv: "kv = (k, v)" by (cases kv)
  from Add_bounded[OF Cons.prems, of k v] obtain c1 where c1:
    "Add k v c = Inr c1" "consistent c1" "MaxEntries c1 = MaxEntries c"
    "int (length (contents c1)) \<le> MaxEntries c" by blast
  from Cons.IH[of c1] c1 Cons.prems(2) obtain rs c2 where
    "run (map (\<lambda>(k, v). OpAdd k v) kvs) c1 = Inr (rs, c2)" "consistent c2"
    "MaxEntries c2 = MaxEntries c" "int (length (contents c2)) \<le> MaxEntries c"
    by auto
  with c1 kv show ?case by simp
qed

text \<open>
  Claim C1. A cache is made by \<^verbatim>\<open>New(maxEntries)\<close> with \<open>maxEntries > 0\<close> (with or without
  a callback) and receives \<^verbatim>\<open>Add\<close> calls only. After each of the calls, that is after
  the first \<open>i\<close> calls for every \<open>i\<close>, the calls have all returned and \<^verbatim>\<open>Len()\<close> is at
  most \<open>maxEntries\<close>: the entry that would exceed the bound is evicted inside the
  \<^verbatim>\<open>Add\<close> that inserts it.
\<close>

theorem capacity_bound:
  assumes "0 < maxEntries"
  shows "\<exists>rs c n. run (map (\<lambda>(k, v). OpAdd k v) (take i (kvs :: ('k \<times> 'v) list)))
                    ((New maxEntries (env :: 'w))\<lparr>OnEvicted := cb\<rparr>) = Inr (rs, c)
            \<and> Len c = Inr n \<and> n \<le> maxEntries"
proof -
  let ?c0 = "(New maxEntries env)\<lparr>OnEvicted := cb\<rparr>"
  have "consistent ?c0" "MaxEntries ?c0 = maxEntries" "contents ?c0 = []"
    by (simp_all add: New_def consistent_def coherent_def contents_def)
  with Adds_bounded[of ?c0 "take i kvs"] assms obtain rs c where
    "run (map (\<lambda>(k, v). OpAdd k v) (take i kvs)) ?c0 = Inr (rs, c)" "consistent c"
    "int (length (contents c)) \<le> maxEntries"
    by auto
  with Len_contents[of c] show ?thesis by auto
qed

theorem capacity_bound_witness:
  "(0::int) < 2 \<and>
   (\<exists>rs c. run (map (\<lambda>(k, v). OpAdd k v) (take 3 [(''a'', 1::int), (''b'', 2), (''c'', 3), (''d'', 4)]))
                ((New 2 [])\<lparr>OnEvicted := Some recorder\<rparr>) = Inr (rs, c)
            \<and> Len c = Inr 2 \<and> contents c = [(''c'', 3), (''b'', 2)] \<and> world c = [(''a'', 1)])"
  using capacity_bound[where maxEntries = 2 and i = 3 and env = "[]" and cb = "Some recorder"
      and kvs = "[(''a'', 1::int), (''b'', 2), (''c'', 3), (''d'', 4)]"]
  by (simp add: Add_def RemoveOldest_def removeElement_def Len_def New_def list_PushFront_def
        list_Back_def list_Remove_def list_Len_def contents_def recorder_def)

lemmas method_defs = Add_def Get_def Remove_def RemoveOldest_def removeElement_def Len_def
  Clear_def New_def list_PushFront_def list_MoveToFront_def list_Back_def list_Remove_def
  list_Len_def

lemma example_reached:
  "run [SetOnEvicted (Some recorder), OpAdd ''a'' 1, OpAdd ''b'' 2] (New 2 []) =
     Inr ([Done, Done, Done], example)"
  by (simp add: method_defs example_def)

subsection \<open>The scenario of capacity 2\<close>

text \<open>
  Claim C2. From an empty cache of capacity 2: after \<^verbatim>\<open>Add("a",1); Add("b",2)\<close> the list is
  b, a; \<^verbatim>\<open>Get("a")\<close> returns \<open>(1, true)\<close> and brings a to the front; \<^verbatim>\<open>Add("c",3)\<close> then
  evicts b, the least recently used; afterwards \<^verbatim>\<open>Len()\<close> is 2, \<^verbatim>\<open>Get("b")\<close> is absent,
  \<^verbatim>\<open>Get("a")\<close> is \<open>(1, true)\<close> and \<^verbatim>\<open>Get("c")\<close> is \<open>(3, true)\<close>. With the recorder as
  callback, the one entry reported as evicted is \<open>("b", 2)\<close>.
\<close>

theorem scenario_capacity_two:
  "(\<exists>c. run [OpAdd ''a'' (1::int), OpAdd ''b'' 2] (New 2 env) = Inr ([Done, Done], c) \<and>
        contents c = [(''b'', 2), (''a'', 1)]) \<and>
   (\<exists>c. run [OpAdd ''a'' (1::int), OpAdd ''b'' 2, OpGet ''a''] (New 2 env) =
          Inr ([Done, Done, Got (Some 1)], c) \<and>
        contents c = [(''a'', 1), (''b'', 2)]) \<and>
   (\<exists>c. run [OpAdd ''a'' (1::int), OpAdd ''b'' 2, OpGet ''a'', OpAdd ''c'' 3] (New 2 env) =
          Inr ([Done, Done, Got (Some 1), Done], c) \<and>
        contents c = [(''c'', 3), (''a'', 1)]) \<and>
   (\<exists>c. run [OpAdd ''a'' (1::int), OpAdd ''b'' 2, OpGet ''a'', OpAdd ''c'' 3,
             OpLen, OpGet ''b'', OpGet ''a'', OpGet ''c''] (New 2 env) =
          Inr ([Done, Done, Got (Some 1), Done,
                Length 2, Got None, Got (Some 1), Got (Some 3)], c)) \<and>
   (\<exists>c. run [SetOnEvicted (Some recorder), OpAdd ''a'' (1::int), OpAdd ''b'' 2, OpGet ''a'',
             OpAdd ''c'' 3] (New 2 []) =
          Inr ([Done, Done, Done, Got (Some 1), Done], c) \<and>
        world c = [(''b'', 2)])"
  by (simp add: method_defs contents_def recorder_def)

subsection \<open>Recency on write\<close>

lemma Add_front:
  assumes "consistent c"
  shows "\<exists>c'. Add k v c = Inr c' \<and> consistent c' \<and>
              (contents c' = [] \<or> (\<exists>rest. contents c' = (k, v) # rest))"
proof -
  from Add_spec[OF assms, of k v] obtain c' where c':
    "Add k v c = Inr c'" "consistent c'"
    "case lookup c k of
       Some u \<Rightarrow>
         contents c' = (k, v) # remove1 (k, u) (contents c) \<and> world c' = world c \<and>
         cache c' = cache c
     | None \<Rightarrow>
         if MaxEntries c \<noteq> 0 \<and> int (length (contents c)) + 1 > MaxEntries c
         then contents c' = butlast ((k, v) # contents c) \<and>
              world c' = after_callback c (fst (last ((k, v) # contents c)))
                           (snd (last ((k, v) # contents c)))
         else contents c' = (k, v) # contents c \<and> world c' = world c"
    by blast
  from c'(3) have "contents c' = [] \<or> (\<exists>rest. contents c' = (k, v) # rest)"
    by (auto split: option.splits if_splits)
  with c' show ?thesis by blast
qed

text \<open>
  Claim C3. In every state a client can reach, \<^verbatim>\<open>Add(k, v)\<close> followed by
  \<^verbatim>\<open>RemoveOldest()\<close> both return; \<^verbatim>\<open>RemoveOldest\<close> drops the back of the list; it
  takes \<open>k\<close> out of the cache only if \<open>(k, v)\<close> was the only entry; and when the cache
  holds more than one entry after the \<^verbatim>\<open>Add\<close>, the back of the list is not \<open>k\<close> and \<open>k\<close> is
  still there, with value \<open>v\<close>, after \<^verbatim>\<open>RemoveOldest\<close>.
\<close>

theorem recency_on_write:
  assumes "run ops (New n env) = Inr (rs, c)"
  shows "\<exists>c1 c2. Add k v c = Inr c1 \<and> RemoveOldest c1 = Inr c2 \<and>
           contents c2 = butlast (contents c1) \<and>
           (lookup c1 k \<noteq> None \<and> lookup c2 k = None \<longrightarrow> contents c1 = [(k, v)]) \<and>
           (1 < length (contents c1) \<longrightarrow> fst (last (contents c1)) \<noteq> k \<and> lookup c2 k = Some v)"
proof -
  have "consistent c" by (rule reachable_consistent[OF assms])
  from Add_front[OF this, of k v] obtain c1 where c1:
    "Add k v c = Inr c1" "consistent c1"
    "contents c1 = [] \<or> (\<exists>rest. contents c1 = (k, v) # rest)" by blast
  from RemoveOldest_spec[OF c1(2)] obtain c2 where c2:
    "RemoveOldest c1 = Inr c2" "consistent c2" "contents c2 = butlast (contents c1)" by blast
  have dk: "distinct (map fst (contents c1))" by (rule distinct_keys[OF c1(2)])
  have l1: "lookup c1 k = map_of (contents c1) k" by (rule lookup_contents[OF c1(2)])
  have l2: "lookup c2 k = map_of (butlast (contents c1)) k"
    using lookup_contents[OF c2(2), of k] c2(3) by simp
  have many: "fst (last (contents c1)) \<noteq> k \<and> lookup c2 k = Some v" if "1 < length (contents c1)"
  proof -
    from that c1(3) obtain rest where r: "contents c1 = (k, v) # rest" "rest \<noteq> []" by auto
    with dk have "last rest \<in> set rest" "k \<notin> fst ` set rest" by auto
    then have "fst (last rest) \<noteq> k" by force
    with r l2 show ?thesis by simp
  qed
  have one: "contents c1 = [(k, v)]" if "lookup c1 k \<noteq> None" "lookup c2 k = None"
  proof -
    from that(1) l1 c1(3) obtain rest where r: "contents c1 = (k, v) # rest" by auto
    show ?thesis
    proof (cases rest)
      case Nil
      with r show ?thesis by simp
    next
      case (Cons a as)
      with r many that(2) show ?thesis by simp
    qed
  qed
  show ?thesis
  proof (rule exI[of _ c1], rule exI[of _ c2], intro conjI impI)
    show "Add k v c = Inr c1" by (rule c1(1))
    show "RemoveOldest c1 = Inr c2" by (rule c2(1))
    show "contents c2 = butlast (contents c1)" by (rule c2(3))
    show "contents c1 = [(k, v)]" if "lookup c1 k \<noteq> None \<and> lookup c2 k = None"
      using that one by blast
    show "fst (last (contents c1)) \<noteq> k" if "1 < length (contents c1)"
      using that many by blast
    show "lookup c2 k = Some v" if "1 < length (contents c1)"
      using that many by blast
  qed
qed

theorem recency_on_write_witness:
  "run [SetOnEvicted (Some recorder), OpAdd ''a'' 1, OpAdd ''b'' 2] (New 2 []) =
     Inr ([Done, Done, Done], example) \<and>
   (\<exists>c1 c2. Add ''a'' 5 example = Inr c1 \<and> RemoveOldest c1 = Inr c2 \<and>
      contents c1 = [(''a'', 5), (''b'', 2)] \<and> contents c2 = [(''a'', 5)] \<and>
      world c2 = [(''b'', 2)])"
  using recency_on_write[OF example_reached, of "''a''" 5] example_reached
  by (simp add: method_defs example_def contents_def recorder_def)

subsection \<open>Uniqueness\<close>

lemma length_remove1_mem: "x \<in> set xs \<Longrightarrow> Suc (length (remove1 x xs)) = length xs"
  by (induction xs) auto

text \<open>
  Claim C4. In every state a client can reach, list and index form one set of entries:
  the invariant holds (the list has no node twice, every node is indexed under its own
  key and every index entry leads to a node of the list with that key), no two nodes of
  the list carry the same key, a key's lookup through the index is its lookup in the
  list, and the list has exactly one entry for each of its nodes. \<^verbatim>\<open>Add\<close> of a key that
  is present returns, leaves the index as it is (the key keeps its node), replaces the
  value in place, moves the entry to the front and keeps the number of entries.
\<close>

theorem one_entry_per_key:
  assumes "run ops (New n env) = Inr (rs, c)"
  shows "consistent c \<and>
         distinct (map fst (contents c)) \<and>
         (\<forall>k. lookup c k = map_of (contents c) k) \<and>
         (\<forall>xs. ll c = Some xs \<longrightarrow> distinct xs \<and> length (contents c) = length xs) \<and>
         (\<forall>k u v. lookup c k = Some u \<longrightarrow>
            (\<exists>c'. Add k v c = Inr c' \<and> cache c' = cache c \<and>
                  contents c' = (k, v) # remove1 (k, u) (contents c) \<and>
                  length (contents c') = length (contents c) \<and>
                  distinct (map fst (contents c'))))"
proof -
  have co: "consistent c" by (rule reachable_consistent[OF assms])
  have len: "distinct xs \<and> length (contents c) = length xs" if "ll c = Some xs" for xs
    using co
  proof (cases rule: consistent_cases)
    case nil
    with that show ?thesis by simp
  next
    case (init m ys)
    with that have "ys = xs" by simp
    with init length_entries[where h = "heap c" and xs = xs] coherent_cell[OF init(3)]
      coherent_distinct[OF init(3)]
    show ?thesis by (simp add: contents_def) blast
  qed
  have upd: "\<exists>c'. Add k v c = Inr c' \<and> cache c' = cache c \<and>
                  contents c' = (k, v) # remove1 (k, u) (contents c) \<and>
                  length (contents c') = length (contents c) \<and>
                  distinct (map fst (contents c'))"
    if "lookup c k = Some u" for k u v
  proof -
    from Add_spec[OF co, of k v] that obtain c' where c':
      "Add k v c = Inr c'" "consistent c'" "cache c' = cache c"
      "contents c' = (k, v) # remove1 (k, u) (contents c)"
      by auto
    from that have "map_of (contents c) k = Some u" using lookup_contents[OF co] by simp
    then have "(k, u) \<in> set (contents c)" by (rule map_of_SomeD)
    then have "length (contents c') = length (contents c)"
      using c'(4) length_remove1_mem[of "(k, u)" "contents c"] by simp
    with c' distinct_keys[OF c'(2)] show ?thesis by blast
  qed
  from co distinct_keys[OF co] lookup_contents[OF co] len upd show ?thesis by blast
qed

theorem one_entry_per_key_witness:
  "run [SetOnEvicted (Some recorder), OpAdd ''a'' 1, OpAdd ''b'' 2] (New 2 []) =
     Inr ([Done, Done, Done], example) \<and>
   distinct (map fst (contents example)) \<and> contents example = [(''b'', 2), (''a'', 1)] \<and>
   lookup example ''a'' = Some 1 \<and>
   (\<exists>c'. Add ''a'' 7 example = Inr c' \<and> cache c' = cache example \<and>
         contents c' = [(''a'', 7), (''b'', 2)])"
  using one_entry_per_key[OF example_reached] example_reached
  by (simp add: method_defs example_def contents_def lookup_def)

subsection \<open>Lookup\<close>

text \<open>
  Claim C5. In every state a client can reach, \<^verbatim>\<open>Get(k)\<close> returns what the cache stores
  for \<open>k\<close>. When \<open>k\<close> is absent the result is \<^verbatim>\<open>ok = false\<close> and the state is unchanged.
  When \<open>k\<close> is present with value \<open>u\<close> the result is \<open>(u, true)\<close>, the entry \<open>(k, u)\<close> is
  moved to the front of the list, and nothing but the list changes.
\<close>

theorem Get_promotes:
  assumes "run ops (New n env) = Inr (rs, c)"
  shows "\<exists>c'. Get k c = Inr (lookup c k, c') \<and> lookup c k = map_of (contents c) k \<and>
           (case lookup c k of
              None \<Rightarrow> c' = c
            | Some u \<Rightarrow>
                contents c' = (k, u) # remove1 (k, u) (contents c) \<and>
                c' = c\<lparr>ll := ll c'\<rparr> \<and> lookup c' = lookup c)"
proof -
  have co: "consistent c" by (rule reachable_consistent[OF assms])
  from Get_spec[OF co, of k] obtain c' where c':
    "Get k c = Inr (lookup c k, c')"
    "case lookup c k of
       None \<Rightarrow> c' = c
     | Some u \<Rightarrow> contents c' = (k, u) # remove1 (k, u) (contents c) \<and> c' = c\<lparr>ll := ll c'\<rparr>"
    by blast
  have "lookup c' = lookup c" if "c' = c\<lparr>ll := ll c'\<rparr>"
  proof -
    have "lookup (c\<lparr>ll := ll c'\<rparr>) = lookup c"
      by (simp add: lookup_def fun_eq_iff split: option.splits)
    with that show ?thesis by simp
  qed
  with c' lookup_contents[OF co, of k] show ?thesis
    by (intro exI[of _ c']) (auto split: option.splits)
qed

theorem Get_promotes_witness:
  "run [SetOnEvicted (Some recorder), OpAdd ''a'' 1, OpAdd ''b'' 2] (New 2 []) =
     Inr ([Done, Done, Done], example) \<and>
   contents example = [(''b'', 2), (''a'', 1)] \<and>
   (\<exists>c'. Get ''a'' example = Inr (Some 1, c') \<and> contents c' = [(''a'', 1), (''b'', 2)]) \<and>
   Get ''z'' example = Inr (None, example)"
  using Get_promotes[OF example_reached, of "''a''"] example_reached
  by (simp add: method_defs example_def contents_def lookup_def)

subsection \<open>Removal of a key\<close>

text \<open>
  Claim C6. In every state a client can reach, \<^verbatim>\<open>Remove(k)\<close> returns. When \<open>k\<close> is absent
  the state is unchanged (so \<^verbatim>\<open>Len()\<close>, the entries and the environment are what they
  were: the callback did not run). When \<open>k\<close> is present with value \<open>u\<close>, the key is gone
  from the index, \<open>(k, u)\<close> is gone from the list, \<^verbatim>\<open>Len()\<close> is one less, and the
  environment is the old one after one run of the callback on \<open>(k, u)\<close>, or the old one
  if there is no callback.
\<close>

theorem Remove_deletes:
  assumes "run ops (New n env) = Inr (rs, c)"
  shows "\<exists>c'. Remove k c = Inr c' \<and>
           (case lookup c k of
              None \<Rightarrow> c' = c
            | Some u \<Rightarrow>
                lookup c' = (lookup c)(k := None) \<and>
                contents c' = remove1 (k, u) (contents c) \<and>
                Len c' = Inr (int (length (contents c)) - 1) \<and>
                world c' = (case OnEvicted c of None \<Rightarrow> world c | Some f \<Rightarrow> f k u (world c)))"
proof -
  have co: "consistent c" by (rule reachable_consistent[OF assms])
  from Remove_spec[OF co, of k] obtain c' where c':
    "Remove k c = Inr c'" "consistent c'"
    "case lookup c k of
       None \<Rightarrow> c' = c
     | Some u \<Rightarrow>
         contents c' = remove1 (k, u) (contents c) \<and>
         lookup c' = (lookup c)(k := None) \<and>
         world c' = after_callback c k u"
    by blast
  have "Len c' = Inr (int (length (contents c)) - 1)"
    if "lookup c k = Some u" "contents c' = remove1 (k, u) (contents c)" for u
  proof -
    from that(1) have "map_of (contents c) k = Some u" using lookup_contents[OF co] by simp
    then have "(k, u) \<in> set (contents c)" by (rule map_of_SomeD)
    with that(2) have "int (length (contents c')) = int (length (contents c)) - 1"
      using length_remove1_mem[of "(k, u)" "contents c"] by simp
    with Len_contents[OF c'(2)] show ?thesis by simp
  qed
  with c'(1,3) show ?thesis
    by (intro exI[of _ c']) (auto simp: after_callback_def split: option.splits)
qed

theorem Remove_deletes_witness:
  "run [SetOnEvicted (Some recorder), OpAdd ''a'' 1, OpAdd ''b'' 2] (New 2 []) =
     Inr ([Done, Done, Done], example) \<and>
   (\<exists>c'. Remove ''a'' example = Inr c' \<and> contents c' = [(''b'', 2)] \<and>
         lookup c' ''a'' = None \<and> Len c' = Inr 1 \<and> world c' = [(''a'', 1)]) \<and>
   Remove ''z'' example = Inr example"
  using Remove_deletes[OF example_reached, of "''a''"] example_reached
  by (simp add: method_defs example_def contents_def lookup_def recorder_def)

subsection \<open>Purging the cache\<close>

text \<open>
  Claim C7. In every state a client can reach, and for every order \<open>ks\<close> in which the
  \<^verbatim>\<open>range\<close> loop may visit the keys of the index, \<^verbatim>\<open>Clear()\<close> returns; the environment
  is the old one after the callback (if there is one) ran on the pairs of a list \<open>kvs\<close>,
  one after the other, where \<open>kvs\<close> has the entries of the cache, each exactly as often as
  the cache holds it (once), in some order; list and index are nil afterwards, the
  cache has no entries, \<^verbatim>\<open>Len()\<close> is 0 and \<^verbatim>\<open>Get\<close> of any key is absent.
\<close>

theorem Clear_resets:
  assumes "run ops (New n env) = Inr (rs, c)" and "range_order (cache c) ks"
  shows "\<exists>c' kvs. Clear ks c = Inr c' \<and> mset kvs = mset (contents c) \<and>
           world c' = (case OnEvicted c of None \<Rightarrow> world c
                       | Some f \<Rightarrow> fold (\<lambda>(k, v). f k v) kvs (world c)) \<and>
           cache c' = None \<and> ll c' = None \<and> contents c' = [] \<and>
           Len c' = Inr 0 \<and> (\<forall>k. Get k c' = Inr (None, c'))"
proof -
  have co: "consistent c" by (rule reachable_consistent[OF assms(1)])
  from Clear_spec[OF co assms(2)] obtain c' kvs where c':
    "Clear ks c = Inr c'" "mset kvs = mset (contents c)"
    "world c' = (case OnEvicted c of None \<Rightarrow> world c
                 | Some f \<Rightarrow> fold (\<lambda>(k, v). f k v) kvs (world c))"
    "c' = c\<lparr>world := world c', ll := None, cache := None\<rparr>"
    by blast
  from arg_cong[OF c'(4), of cache] arg_cong[OF c'(4), of ll]
  have nil: "cache c' = None" "ll c' = None" by simp_all
  then have "contents c' = []" "Len c' = Inr 0" "\<forall>k. Get k c' = Inr (None, c')"
    by (simp_all add: contents_def Len_def Get_def)
  with c'(1-3) nil show ?thesis by blast
qed

theorem Clear_resets_witness:
  "run [SetOnEvicted (Some recorder), OpAdd ''a'' 1, OpAdd ''b'' 2] (New 2 []) =
     Inr ([Done, Done, Done], example) \<and>
   range_order (cache example) [''b'', ''a''] \<and>
   (\<exists>c'. Clear [''b'', ''a''] example = Inr c' \<and> world c' = [(''b'', 2), (''a'', 1)] \<and>
         Len c' = Inr 0 \<and> Get ''a'' c' = Inr (None, c'))"
  using Clear_resets[OF example_reached, where ks = "[''b'', ''a'']"] example_reached
  by (simp add: method_defs example_def contents_def recorder_def range_order_def)

subsection \<open>The callback at capacity 1\<close>

text \<open>
  Claim C8. A cache made by \<^verbatim>\<open>New(1)\<close> is given a callback \<open>f\<close>. \<^verbatim>\<open>Add(a, va)\<close> returns and
  leaves the environment as it was; \<^verbatim>\<open>Add(b, vb)\<close> for another key \<open>b\<close> returns and the
  environment is then \<open>f a va\<close> of the first one: the callback ran once, on \<open>(a, va)\<close>.
  The cache then holds \<open>(b, vb)\<close> only. (The claim has \<open>va = 1\<close> and \<open>vb = 2\<close>.)
\<close>

theorem eviction_callback_fires:
  assumes "a \<noteq> b"
  shows "\<exists>c1 c2. Add a va ((New 1 env)\<lparr>OnEvicted := Some f\<rparr>) = Inr c1 \<and> world c1 = env \<and>
           Add b vb c1 = Inr c2 \<and> world c2 = f a va env \<and> contents c2 = [(b, vb)]"
  using assms by (simp add: method_defs contents_def)

theorem eviction_callback_fires_witness:
  "''a'' \<noteq> ''b'' \<and>
   (\<exists>c1 c2. Add ''a'' (1::int) ((New 1 [])\<lparr>OnEvicted := Some recorder\<rparr>) = Inr c1 \<and> world c1 = [] \<and>
      Add ''b'' 2 c1 = Inr c2 \<and> world c2 = [(''a'', 1)] \<and> contents c2 = [(''b'', 2)])"
  using eviction_callback_fires[where a = "''a''" and b = "''b''" and va = "1::int" and vb = 2
      and env = "[]" and f = recorder]
  by (simp add: recorder_def)

subsection \<open>A cache with nil list and nil index\<close>

lemma zero_Cache_reached: "run [OpClear []] (New 0 w) = Inr ([Done], zero_Cache w)"
  by (simp add: Clear_def New_def zero_Cache_def)


text \<open>
  Claim C9. On a cache whose list and index are nil no method panics: \<^verbatim>\<open>Get\<close> returns
  absent, \<^verbatim>\<open>Len\<close> returns 0, \<^verbatim>\<open>Remove\<close>, \<^verbatim>\<open>RemoveOldest\<close> and \<^verbatim>\<open>Clear\<close> return the state
  unchanged, \<^verbatim>\<open>String\<close> returns the empty string, and \<^verbatim>\<open>Add\<close> does what it does on the same cache with an empty list and an
  empty index: it returns a consistent state with list and index made; the new entry
  is the only one, unless \<open>MaxEntries\<close> is negative, in which case the entry is evicted
  at once. The zero value is such a cache, and so is every state that \<^verbatim>\<open>Clear\<close> returns.
\<close>

theorem uninitialized_safe:
  assumes "cache c = None" and "ll c = None"
  shows "Get k (c :: ('k, 'v, 'w) Cache) = Inr (None, c) \<and> Len c = Inr 0 \<and> Remove k c = Inr c \<and>
         RemoveOldest c = Inr c \<and> Clear ks c = Inr c \<and> String fk fv ks c = Inr [] \<and>
         Add k v c = Add k v (c\<lparr>cache := Some Map.empty, ll := Some []\<rparr>) \<and>
         (\<exists>c'. Add k v c = Inr c' \<and> consistent c' \<and> cache c' \<noteq> None \<and> ll c' \<noteq> None \<and>
               contents c' = (if MaxEntries c < 0 then [] else [(k, v)]) \<and>
               world c' = (if MaxEntries c < 0 then after_callback c k v else world c)) \<and>
         cache (zero_Cache w :: ('k, 'v, 'w) Cache) = None \<and>
         ll (zero_Cache w :: ('k, 'v, 'w) Cache) = None \<and>
         (Clear ks' d = Inr d' \<longrightarrow> cache d' = None \<and> ll d' = None)"
proof -
  have "consistent c" using assms by (simp add: consistent_def)
  from Add_spec[OF this, of k v] obtain c' where c':
    "Add k v c = Inr c'" "consistent c'"
    "case lookup c k of
       Some u \<Rightarrow>
         contents c' = (k, v) # remove1 (k, u) (contents c) \<and> world c' = world c \<and>
         cache c' = cache c
     | None \<Rightarrow>
         if MaxEntries c \<noteq> 0 \<and> int (length (contents c)) + 1 > MaxEntries c
         then contents c' = butlast ((k, v) # contents c) \<and>
              world c' = after_callback c (fst (last ((k, v) # contents c)))
                           (snd (last ((k, v) # contents c)))
         else contents c' = (k, v) # contents c \<and> world c' = world c"
    by blast
  have "lookup c k = None" "contents c = []" using assms by (simp_all add: lookup_def contents_def)
  with c'(3) have obs: "contents c' = (if MaxEntries c < 0 then [] else [(k, v)])"
    "world c' = (if MaxEntries c < 0 then after_callback c k v else world c)"
    by (auto split: if_splits)
  have init: "cache c' \<noteq> None" "ll c' \<noteq> None"
    using c'(1) assms
    by (auto simp: method_defs Let_def split: if_splits option.splits)
  have clear: "Clear ks c = Inr c"
    using assms by (cases c) (simp add: Clear_def split: option.splits)
  have clear': "cache d' = None \<and> ll d' = None" if "Clear ks' d = Inr d'"
    using that by (auto simp: Clear_def split: option.splits sum.splits)
  from assms c'(1,2) obs init clear clear' Add_lazy_init[OF assms(1), of k v] show ?thesis
    by (simp add: Get_def Len_def Remove_def RemoveOldest_def String_def zero_Cache_def)
qed

theorem uninitialized_safe_witness:
  "cache (zero_Cache () :: (string, int, unit) Cache) = None \<and>
   ll (zero_Cache () :: (string, int, unit) Cache) = None \<and>
   Get ''a'' (zero_Cache () :: (string, int, unit) Cache) = Inr (None, zero_Cache ()) \<and>
   Len (zero_Cache () :: (string, int, unit) Cache) = Inr 0 \<and>
   Remove ''a'' (zero_Cache () :: (string, int, unit) Cache) = Inr (zero_Cache ()) \<and>
   RemoveOldest (zero_Cache () :: (string, int, unit) Cache) = Inr (zero_Cache ()) \<and>
   Clear [] (zero_Cache () :: (string, int, unit) Cache) = Inr (zero_Cache ()) \<and>
   String id (\<lambda>_. []) [] (zero_Cache () :: (string, int, unit) Cache) = Inr [] \<and>
   (\<exists>c'. Add ''a'' 1 (zero_Cache () :: (string, int, unit) Cache) = Inr c' \<and>
         contents c' = [(''a'', 1)] \<and> Get ''a'' c' = Inr (Some 1, c'))"
  using uninitialized_safe[where c = "zero_Cache () :: (string, int, unit) Cache"
      and k = "''a''" and ks = "[]" and v = 1]
  by (simp add: method_defs contents_def String_def zero_Cache_def)

subsection \<open>When Add evicts\<close>

text \<open>
  Claim C10. In every state a client can reach, \<^verbatim>\<open>Add(k, v)\<close> returns, and \<^verbatim>\<open>Len()\<close>
  before the call is the number of entries. If \<open>k\<close> was present, the environment is
  unchanged (the callback did not run), \<^verbatim>\<open>Len()\<close> is unchanged and the entries are the old
  ones with \<open>k\<close>'s at the front, holding \<open>v\<close>. If \<open>k\<close> was absent, \<open>MaxEntries\<close> is not 0 and
  the number of entries plus one exceeds \<open>MaxEntries\<close>, then the back-most entry of the
  list with \<open>(k, v)\<close> pushed at its front is dropped and the callback, if there is one, has
  run once, on that entry. If \<open>k\<close> was absent otherwise, \<open>(k, v)\<close> is pushed at the front,
  nothing is dropped and the environment is unchanged.
\<close>

theorem Add_evicts_iff:
  assumes "run ops (New n env) = Inr (rs, c)"
  shows "\<exists>c'. Add k v c = Inr c' \<and> Len c = Inr (int (length (contents c))) \<and>
           (case lookup c k of
              Some u \<Rightarrow>
                world c' = world c \<and> Len c' = Len c \<and>
                contents c' = (k, v) # remove1 (k, u) (contents c)
            | None \<Rightarrow>
                if MaxEntries c \<noteq> 0 \<and> int (length (contents c)) + 1 > MaxEntries c
                then contents c' = butlast ((k, v) # contents c) \<and>
                     world c' =
                       (case OnEvicted c of
                          None \<Rightarrow> world c
                        | Some f \<Rightarrow> f (fst (last ((k, v) # contents c)))
                                     (snd (last ((k, v) # contents c))) (world c))
                else contents c' = (k, v) # contents c \<and> world c' = world c)"
proof -
  have co: "consistent c" by (rule reachable_consistent[OF assms(1)])
  from Add_spec[OF this, of k v] obtain c' where c':
    "Add k v c = Inr c'" "consistent c'"
    "case lookup c k of
       Some u \<Rightarrow>
         contents c' = (k, v) # remove1 (k, u) (contents c) \<and> world c' = world c \<and>
         cache c' = cache c
     | None \<Rightarrow>
         if MaxEntries c \<noteq> 0 \<and> int (length (contents c)) + 1 > MaxEntries c
         then contents c' = butlast ((k, v) # contents c) \<and>
              world c' = after_callback c (fst (last ((k, v) # contents c)))
                           (snd (last ((k, v) # contents c)))
         else contents c' = (k, v) # contents c \<and> world c' = world c"
    by blast
  have "Len c' = Len c" if "lookup c k = Some u" "contents c' = (k, v) # remove1 (k, u) (contents c)" for u
  proof -
    from that(1) have "map_of (contents c) k = Some u" using lookup_contents[OF co] by simp
    then have "(k, u) \<in> set (contents c)" by (rule map_of_SomeD)
    with that(2) length_remove1_mem[of "(k, u)" "contents c"]
    have "length (contents c') = length (contents c)" by simp
    with Len_contents[OF co] Len_contents[OF c'(2)] show ?thesis by simp
  qed
  with c'(1,3) Len_contents[OF co] show ?thesis
    by (intro exI[of _ c']) (auto simp: after_callback_def split: option.splits if_splits)
qed

theorem Add_evicts_iff_witness:
  "run [SetOnEvicted (Some recorder), OpAdd ''a'' 1, OpAdd ''b'' 2] (New 2 []) =
     Inr ([Done, Done, Done], example) \<and>
   (\<exists>c'. Add ''c'' 3 example = Inr c' \<and> contents c' = [(''c'', 3), (''b'', 2)] \<and>
         world c' = [(''a'', 1)]) \<and>
   (\<exists>c'. Add ''a'' 9 example = Inr c' \<and> contents c' = [(''a'', 9), (''b'', 2)] \<and>
         world c' = [] \<and> Len c' = Inr 2)"
  using Add_evicts_iff[OF example_reached, where k = "''c''" and v = 3] example_reached
  by (simp add: method_defs example_def contents_def recorder_def)

end
